theory Spec2Isabelle
  imports Complex_Main "HOL-Library.Char_ord" "HOL-Library.List_Lexorder"
begin

section \<open>JavaScript values as the two source files use them\<close>

text \<open>
  A parsed JSON body is a \<open>jsval\<close>. Numbers are exact rationals: the timestamps, slots
  and fees of the provider are integers, and the end-of-day bound computed by the page
  (\<open>endOf("day").toSeconds()\<close>) ends in \<open>.999\<close>. IEEE rounding, NaN and the
  infinities are not part of the model. \<open>Undefined\<close> is what reading a missing
  property gives.
\<close>

datatype jsval =
    Undefined
  | Null
  | Bool bool
  | Num rat
  | Str string
  | Obj "(string \<times> jsval) list"
  | Arr "jsval list"

text \<open>ToBoolean: what \<open>!v\<close>, \<open>if (v)\<close>, \<open>a || b\<close> and \<open>c ? a : b\<close> test.\<close>

fun truthy :: "jsval \<Rightarrow> bool" where
  "truthy Undefined = False"
| "truthy Null = False"
| "truthy (Bool b) = b"
| "truthy (Num q) = (q \<noteq> 0)"
| "truthy (Str s) = (s \<noteq> [])"
| "truthy (Obj kvs) = True"
| "truthy (Arr xs) = True"

text \<open>\<open>a || b\<close> and \<open>a ?? b\<close>.\<close>

definition js_or :: "jsval \<Rightarrow> jsval \<Rightarrow> jsval" where
  "js_or a b = (if truthy a then a else b)"

definition nullish :: "jsval \<Rightarrow> bool" where
  "nullish v = (v = Undefined \<or> v = Null)"

definition js_coalesce :: "jsval \<Rightarrow> jsval \<Rightarrow> jsval" where
  "js_coalesce a b = (if nullish a then b else a)"

text \<open>
  \<open>x.k\<close> for a value \<open>x\<close> that is neither null nor undefined, and for a name \<open>k\<close>
  that no prototype defines (every name the two files read from a response is such a
  name): the own property of an object, undefined on everything else. On null and
  undefined the access throws; the callers below test \<open>nullish\<close> first.
\<close>

fun js_get :: "jsval \<Rightarrow> string \<Rightarrow> jsval" where
  "js_get (Obj kvs) k = (case map_of kvs k of None \<Rightarrow> Undefined | Some v \<Rightarrow> v)"
| "js_get v k = Undefined"

text \<open>\<open>x?.k\<close>\<close>

definition js_get_opt :: "jsval \<Rightarrow> string \<Rightarrow> jsval" where
  "js_get_opt x k = (if nullish x then Undefined else js_get x k)"

text \<open>
  ToNumber, as the comparisons \<open>>=\<close> and \<open><=\<close> against a number apply it. On strings,
  arrays and objects the conversion is the engine's (it parses the string form); it is
  taken as the parameter \<open>cv\<close>, \<open>None\<close> standing for NaN.
\<close>

fun to_number :: "(jsval \<Rightarrow> rat option) \<Rightarrow> jsval \<Rightarrow> rat option" where
  "to_number cv Undefined = None"
| "to_number cv Null = Some 0"
| "to_number cv (Bool b) = Some (if b then 1 else 0)"
| "to_number cv (Num q) = Some q"
| "to_number cv v = cv v"

definition js_ge :: "(jsval \<Rightarrow> rat option) \<Rightarrow> jsval \<Rightarrow> rat \<Rightarrow> bool" where
  "js_ge cv v b = (case to_number cv v of None \<Rightarrow> False | Some q \<Rightarrow> b \<le> q)"

definition js_le :: "(jsval \<Rightarrow> rat option) \<Rightarrow> jsval \<Rightarrow> rat \<Rightarrow> bool" where
  "js_le cv v b = (case to_number cv v of None \<Rightarrow> False | Some q \<Rightarrow> q \<le> b)"

section \<open>Rows and the two normalisers of \<open>fetchAll\<close>\<close>

datatype error =
    ValidationError string
  | HttpError string nat
  | NetworkError
  | SyntaxError
  | TypeError

record row =
  blockTime :: jsval
  signature :: jsval
  slot :: jsval
  fee :: jsval
  err :: jsval

text \<open>The arrow function of the balance-change phase (App.jsx, lines 58 to 65).\<close>

definition balance_row :: "jsval \<Rightarrow> row" where
  "balance_row x =
     \<lparr> blockTime = js_or (js_or (js_get x ''block_time'') (js_get x ''blockTime'')) (js_get x ''ts''),
       signature = js_or (js_get x ''tx_hash'') (js_get x ''txHash''),
       slot = js_or (js_get x ''slot'') Null,
       fee = js_or (js_get x ''fee'') (Num 0),
       err = js_or (js_get x ''err'') Null \<rparr>"

text \<open>The object pushed for each transaction (App.jsx, lines 77 to 83).\<close>

definition tx_row :: "jsval \<Rightarrow> row" where
  "tx_row t =
     \<lparr> blockTime = js_or (js_or (js_get t ''blockTime'') (js_get t ''blockTimeUnix'')) (js_get t ''block_time''),
       signature = js_or (js_get t ''txHash'') (js_get t ''txhash''),
       slot = js_coalesce (js_get t ''slot'') Null,
       fee = js_or (js_or (js_get t ''fee'') (js_get t ''feeLamports'')) (Num 0),
       err = js_or (js_or (js_get t ''err'') (js_get t ''error'')) Null \<rparr>"

text \<open>Reading a property of a null or undefined element throws a TypeError.\<close>

definition normalize :: "(jsval \<Rightarrow> row) \<Rightarrow> jsval \<Rightarrow> error + row" where
  "normalize f x = (if nullish x then Inl TypeError else Inr (f x))"

text \<open>
  A whole batch: \<open>list.map(...)\<close> and the \<open>for (const t of page)\<close> loop both stop at the
  first element that throws, and nothing of the batch is published then.
\<close>

fun normalize_all :: "(jsval \<Rightarrow> row) \<Rightarrow> jsval list \<Rightarrow> error + row list" where
  "normalize_all f [] = Inr []"
| "normalize_all f (x # xs) =
     (case normalize f x of
        Inl e \<Rightarrow> Inl e
      | Inr r \<Rightarrow> (case normalize_all f xs of Inl e \<Rightarrow> Inl e | Inr rs \<Rightarrow> Inr (r # rs)))"

section \<open>The client-side date filter (App.jsx, lines 86 and 87)\<close>

text \<open>
  \<open>startEpoch\<close> and \<open>endEpoch\<close> are a number or null (\<open>None\<close>). \<open>if (startEpoch)\<close> is
  false for null and for 0, and then the array is left as it is.
\<close>

definition keep_start :: "(jsval \<Rightarrow> rat option) \<Rightarrow> rat \<Rightarrow> row \<Rightarrow> bool" where
  "keep_start cv s r = (\<not> truthy (blockTime r) \<or> js_ge cv (blockTime r) s)"

definition keep_end :: "(jsval \<Rightarrow> rat option) \<Rightarrow> rat \<Rightarrow> row \<Rightarrow> bool" where
  "keep_end cv e r = (\<not> truthy (blockTime r) \<or> js_le cv (blockTime r) e)"

definition filter_start :: "(jsval \<Rightarrow> rat option) \<Rightarrow> rat option \<Rightarrow> row list \<Rightarrow> row list" where
  "filter_start cv startEpoch out2 =
     (case startEpoch of
        None \<Rightarrow> out2
      | Some s \<Rightarrow> if s = 0 then out2 else filter (keep_start cv s) out2)"

definition filter_end :: "(jsval \<Rightarrow> rat option) \<Rightarrow> rat option \<Rightarrow> row list \<Rightarrow> row list" where
  "filter_end cv endEpoch out2 =
     (case endEpoch of
        None \<Rightarrow> out2
      | Some e \<Rightarrow> if e = 0 then out2 else filter (keep_end cv e) out2)"

definition date_filter ::
  "(jsval \<Rightarrow> rat option) \<Rightarrow> rat option \<Rightarrow> rat option \<Rightarrow> row list \<Rightarrow> row list" where
  "date_filter cv startEpoch endEpoch out2 =
     filter_end cv endEpoch (filter_start cv startEpoch out2)"

section \<open>The API client (solscan.js)\<close>

text \<open>
  What \<open>fetch\<close> gives: a transport failure, or a status with the parsed body
  (\<open>None\<close> when the body is not JSON and \<open>res.json()\<close> rejects). The remote server is
  a parameter: one answer for the account detail, one for each balance-change page
  number, and one for each transaction request in the order they are sent (the cursor
  of a request is a function of the earlier answers, so this covers every server).
\<close>

datatype response = NetworkFailure | Reply nat "jsval option"

datatype request =
    AccountDetail
  | BalanceChange rat rat nat nat
  | Transactions nat "jsval option"

datatype status =
    Idle
  | FetchingAccount
  | FetchingBalanceChanges
  | FetchingTransactions
  | Fetched nat
  | Done
  | Failed error

text \<open>
  Everything \<open>fetchAll\<close> does to the outside, in the order it does it: the state
  setters of the component, the requests and the pauses.
\<close>

datatype event =
    SetLoading bool
  | SetStatus status
  | SetProgress rat
  | SetRows "row list"
  | SetAcct jsval
  | Fetch request
  | Sleep nat

record env =
  detail :: response
  balance :: "nat \<Rightarrow> response"
  txs :: "nat \<Rightarrow> response"
  nowMs :: rat
  coerce :: "jsval \<Rightarrow> rat option"

definition res_ok :: "nat \<Rightarrow> bool" where
  "res_ok st = (200 \<le> st \<and> st \<le> 299)"

text \<open>\<open>if (!res.ok) throw new Error(...); return await res.json();\<close>\<close>

definition read_json :: "string \<Rightarrow> response \<Rightarrow> error + jsval" where
  "read_json what res =
     (case res of
        NetworkFailure \<Rightarrow> Inl NetworkError
      | Reply st body \<Rightarrow>
          if \<not> res_ok st then Inl (HttpError what st)
          else (case body of None \<Rightarrow> Inl SyntaxError | Some v \<Rightarrow> Inr v))"

definition getAccountDetail :: "env \<Rightarrow> event list \<times> (error + jsval)" where
  "getAccountDetail e = ([Fetch AccountDetail], read_json ''Account detail'' (detail e))"

definition getBalanceChanges ::
  "env \<Rightarrow> rat \<Rightarrow> rat \<Rightarrow> nat \<Rightarrow> nat \<Rightarrow> event list \<times> (error + jsval)" where
  "getBalanceChanges e from to page pageSize =
     ([Fetch (BalanceChange from to page pageSize)],
      read_json ''Balance changes'' (balance e page))"

subsection \<open>The transaction paginator \<open>iterTransactions\<close>\<close>

text \<open>
  \<open>out?.data || []\<close>. The provider's \<open>data\<close> is an array. A \<open>data\<close> that is a number, a
  boolean or an object has no truthy \<open>length\<close> and ends the sequence like the empty
  array does; a string or an object with a \<open>length\<close> of its own is outside the model.
\<close>

definition tx_list :: "jsval \<Rightarrow> jsval list" where
  "tx_list out =
     (case js_or (js_get_opt out ''data'') (Arr []) of Arr xs \<Rightarrow> xs | _ \<Rightarrow> [])"

text \<open>\<open>list[list.length - 1]\<close>: undefined on the empty array.\<close>

definition last_item :: "jsval list \<Rightarrow> jsval" where
  "last_item list = (if list = [] then Undefined else last list)"

text \<open>
  The generator between two calls of \<open>next()\<close>: its locals, the number of requests it
  has sent, and the batch it is suspended on at \<open>yield list\<close> (\<open>None\<close> before the first
  call).
\<close>

record gen =
  beforeHash :: jsval
  loaded :: nat
  issued :: nat
  pending :: "jsval list option"

text \<open>
  The generator object that the call \<open>iterTransactions(address, apiKey, limit)\<close>
  returns, before its first \<open>next()\<close>; the limit is passed to each call below.
\<close>

definition iterTransactions :: gen where
  "iterTransactions = \<lparr> beforeHash = Undefined, loaded = 0, issued = 0, pending = None \<rparr>"

datatype step = Yield "jsval list" gen | Return | Throw error

text \<open>Lines 25 to 38: from the top of the loop body to the \<open>yield\<close>.\<close>

definition gen_request :: "(nat \<Rightarrow> response) \<Rightarrow> nat \<Rightarrow> gen \<Rightarrow> event list \<times> step" where
  "gen_request srv limit g =
     (let ev = Fetch (Transactions limit
                 (if truthy (beforeHash g) then Some (beforeHash g) else None))
      in case read_json ''Transactions'' (srv (issued g)) of
           Inl er \<Rightarrow> ([ev], Throw er)
         | Inr out \<Rightarrow>
             (let list = tx_list out
              in if list = [] then ([ev], Return)
                 else ([ev], Yield list (g\<lparr> issued := Suc (issued g), pending := Some list \<rparr>))))"

text \<open>One call of \<open>next()\<close>: lines 39 to 41 first when the generator is suspended.\<close>

definition gen_next :: "(nat \<Rightarrow> response) \<Rightarrow> nat \<Rightarrow> gen \<Rightarrow> event list \<times> step" where
  "gen_next srv limit g =
     (case pending g of
        None \<Rightarrow> gen_request srv limit g
      | Some list \<Rightarrow>
          (let g1 = g\<lparr> loaded := loaded g + length list,
                       beforeHash := js_get_opt (last_item list) ''txHash'' \<rparr>
           in if \<not> truthy (beforeHash g1) then ([], Return)
              else gen_request srv limit g1))"

section \<open>The aggregation controller \<open>fetchAll\<close> (App.jsx)\<close>

record config =
  apiKey :: string
  address :: string
  startEpoch :: "rat option"
  endEpoch :: "rat option"
  maxRows :: rat

subsection \<open>The balance-change phase (lines 50 to 71)\<close>

text \<open>
  \<open>r?.data?.list || []\<close>, then \<open>list.map(...)\<close>: a truthy value that is not an array
  has no \<open>map\<close> method, and the call throws.
\<close>

definition balance_list :: "jsval \<Rightarrow> error + jsval list" where
  "balance_list r =
     (case js_or (js_get_opt (js_get_opt r ''data'') ''list'') (Arr []) of
        Arr xs \<Rightarrow> Inr xs
      | _ \<Rightarrow> Inl TypeError)"

definition balance_progress :: "nat \<Rightarrow> rat" where
  "balance_progress page = min 80 (20 + of_nat page * 4)"

text \<open>
  One turn of the loop up to the test of line 67: the request, the rows appended to
  \<open>out\<close>, the two setters. The result carries the length of the page's list and the
  new \<open>out\<close>.
\<close>

definition balance_page ::
  "env \<Rightarrow> rat \<Rightarrow> rat \<Rightarrow> nat \<Rightarrow> row list \<Rightarrow> event list \<times> (error + nat \<times> row list)" where
  "balance_page e from to page out =
     (case getBalanceChanges e from to page 100 of
        (evs, Inl er) \<Rightarrow> (evs, Inl er)
      | (evs, Inr r) \<Rightarrow>
          (case balance_list r of
             Inl er \<Rightarrow> (evs, Inl er)
           | Inr list \<Rightarrow>
               (case normalize_all balance_row list of
                  Inl er \<Rightarrow> (evs, Inl er)
                | Inr new \<Rightarrow>
                    (evs @ [SetRows (out @ new), SetProgress (balance_progress page)],
                     Inr (length list, out @ new)))))"

lemma normalize_all_length:
  "normalize_all f xs = Inr rs \<Longrightarrow> length rs = length xs"
  by (induction xs arbitrary: rs) (auto split: sum.splits)

lemma balance_page_length:
  "balance_page e from to page out = (evs, Inr (n, out')) \<Longrightarrow> length out' = length out + n"
  by (auto simp: balance_page_def getBalanceChanges_def normalize_all_length
      split: sum.splits)

lemma balance_measure:
  assumes step: "balance_page e from to page out = (evs, Inr (n, out'))"
    and pos: "0 < n" and go: "\<not> (cap :: rat) \<le> of_nat (length out')"
  shows "nat \<lceil>cap\<rceil> - length out' < nat \<lceil>cap\<rceil> - length out"
proof -
  from step have len: "length out' = length out + n"
    by (rule balance_page_length)
  from go have "of_nat (length out') < (of_int \<lceil>cap\<rceil> :: rat)"
    using le_of_int_ceiling [of cap] by linarith
  then have "int (length out') < \<lceil>cap\<rceil>"
    by (metis of_int_less_iff of_int_of_nat_eq)
  then have "length out' < nat \<lceil>cap\<rceil>" by linarith
  with len pos show ?thesis by linarith
qed

function balance_loop ::
  "env \<Rightarrow> rat \<Rightarrow> rat \<Rightarrow> rat \<Rightarrow> nat \<Rightarrow> row list \<Rightarrow> event list \<times> error option \<times> row list" where
  "balance_loop e from to cap page out =
     (case balance_page e from to page out of
        (evs, Inl er) \<Rightarrow> (evs, Some er, out)
      | (evs, Inr (n, out')) \<Rightarrow>
          if n = 0 \<or> cap \<le> of_nat (length out') then (evs, None, out')
          else (case balance_loop e from to cap (Suc page) out' of
                  (evs', res) \<Rightarrow> (evs @ Sleep 120 # evs', res)))"
  by pat_completeness auto
termination
  by (relation "measure (\<lambda>(e, from, to, cap, page, out). nat \<lceil>cap\<rceil> - length out)")
     (auto intro: balance_measure [OF sym])

text \<open>
  Lines 50 to 71. \<open>startEpoch || 0\<close> and \<open>endEpoch || Math.floor(Date.now()/1000)\<close>.
\<close>

definition bound_set :: "rat option \<Rightarrow> bool" where
  "bound_set b = (case b of None \<Rightarrow> False | Some q \<Rightarrow> q \<noteq> 0)"

definition balance_phase :: "config \<Rightarrow> env \<Rightarrow> event list \<times> error option \<times> row list" where
  "balance_phase c e =
     (let from = (case startEpoch c of None \<Rightarrow> 0 | Some s \<Rightarrow> s);
          to = (if bound_set (endEpoch c) then (case endEpoch c of None \<Rightarrow> 0 | Some q \<Rightarrow> q)
                else of_int \<lfloor>nowMs e / 1000\<rfloor>)
      in case balance_loop e from to (maxRows c) 1 [] of
           (evs, Some er, out) \<Rightarrow> (SetStatus FetchingBalanceChanges # evs, Some er, out)
         | (evs, None, out) \<Rightarrow>
             (SetStatus FetchingBalanceChanges # evs @ [SetStatus FetchingTransactions], None, out))"

subsection \<open>The transaction crawl (lines 74 to 94)\<close>

text \<open>\<open>Math.round(x)\<close> is \<open>floor(x + 1/2)\<close>.\<close>

definition tx_progress :: "rat \<Rightarrow> nat \<Rightarrow> rat" where
  "tx_progress cap n = min 95 (60 + of_int \<lfloor>of_nat n / max 500 cap * 35 + 1 / 2\<rfloor>)"

text \<open>
  The \<open>for await\<close> loop. The server may answer with non-empty pages for ever while the
  date filter drops every row, so the loop takes fuel: one unit for each call of
  \<open>next()\<close>, \<open>None\<close> when it runs out. The last component is \<open>out2\<close> as last published.
\<close>

fun tx_loop ::
  "nat \<Rightarrow> config \<Rightarrow> env \<Rightarrow> gen \<Rightarrow> row list \<Rightarrow> (event list \<times> error option \<times> row list) option" where
  "tx_loop 0 c e g out2 = None"
| "tx_loop (Suc k) c e g out2 =
     (case gen_next (txs e) 50 g of
        (evs, Throw er) \<Rightarrow> Some (evs, Some er, out2)
      | (evs, Return) \<Rightarrow> Some (evs, None, out2)
      | (evs, Yield page g') \<Rightarrow>
          (case normalize_all tx_row page of
             Inl er \<Rightarrow> Some (evs, Some er, out2)
           | Inr new \<Rightarrow>
               (let out2' = date_filter (coerce e) (startEpoch c) (endEpoch c) (out2 @ new);
                    evs' = evs @ [SetRows out2', SetStatus (Fetched (length out2')),
                                  SetProgress (tx_progress (maxRows c) (length out2'))]
                in if maxRows c \<le> of_nat (length out2') then Some (evs', None, out2')
                   else (case tx_loop k c e g' out2' of
                           None \<Rightarrow> None
                         | Some (evs2, res) \<Rightarrow> Some (evs' @ Sleep 120 # evs2, res)))))"

subsection \<open>\<open>fetchAll\<close>: the \<open>try\<close> block, then \<open>catch\<close> and \<open>finally\<close>\<close>

definition fetch_try :: "nat \<Rightarrow> config \<Rightarrow> env \<Rightarrow> (event list \<times> error option) option" where
  "fetch_try fuel c e =
     (if apiKey c = [] then Some ([], Some (ValidationError ''Enter your Solscan Pro API key.''))
      else if address c = [] then Some ([], Some (ValidationError ''Enter a Solana address.''))
      else
        (let evs0 = [SetLoading True, SetStatus FetchingAccount, SetProgress 5, SetRows []]
         in case getAccountDetail e of
              (ev1, Inl er) \<Rightarrow> Some (evs0 @ ev1, Some er)
            | (ev1, Inr d) \<Rightarrow>
                (let evs1 = evs0 @ ev1 @ [SetAcct (js_or (js_get_opt d ''data'') Null)]
                 in case (if bound_set (startEpoch c) \<or> bound_set (endEpoch c)
                          then balance_phase c e else ([], None, [])) of
                      (evs2, Some er, out) \<Rightarrow> Some (evs1 @ evs2, Some er)
                    | (evs2, None, out) \<Rightarrow>
                        (case tx_loop fuel c e iterTransactions [] of
                           None \<Rightarrow> None
                         | Some (evs3, Some er, out2) \<Rightarrow> Some (evs1 @ evs2 @ evs3, Some er)
                         | Some (evs3, None, out2) \<Rightarrow>
                             Some (evs1 @ evs2 @ evs3 @ [SetStatus Done, SetProgress 100], None)))))"

definition fetchAll :: "nat \<Rightarrow> config \<Rightarrow> env \<Rightarrow> event list option" where
  "fetchAll fuel c e =
     (case fetch_try fuel c e of
        None \<Rightarrow> None
      | Some (evs, None) \<Rightarrow> Some (evs @ [SetLoading False])
      | Some (evs, Some er) \<Rightarrow> Some (evs @ [SetStatus (Failed er), SetLoading False]))"

subsection \<open>The component state the setters write\<close>

record ui =
  status :: status
  loading :: bool
  progress :: rat
  acct :: jsval
  rows :: "row list"

fun apply_event :: "ui \<Rightarrow> event \<Rightarrow> ui" where
  "apply_event u (SetLoading b) = u\<lparr> loading := b \<rparr>"
| "apply_event u (SetStatus s) = u\<lparr> status := s \<rparr>"
| "apply_event u (SetProgress p) = u\<lparr> progress := p \<rparr>"
| "apply_event u (SetRows rs) = u\<lparr> rows := rs \<rparr>"
| "apply_event u (SetAcct a) = u\<lparr> acct := a \<rparr>"
| "apply_event u (Fetch q) = u"
| "apply_event u (Sleep ms) = u"

definition run :: "ui \<Rightarrow> event list \<Rightarrow> ui" where
  "run u evs = foldl apply_event u evs"

text \<open>The state of \<open>useState\<close> before the first fetch.\<close>

definition ui_init :: ui where
  "ui_init = \<lparr> status = Idle, loading = False, progress = 0, acct = Null, rows = [] \<rparr>"

text \<open>Views of a trace.\<close>

fun tx_requests :: "event list \<Rightarrow> nat" where
  "tx_requests [] = 0"
| "tx_requests (Fetch (Transactions l b) # evs) = Suc (tx_requests evs)"
| "tx_requests (ev # evs) = tx_requests evs"

fun requests :: "event list \<Rightarrow> request list" where
  "requests [] = []"
| "requests (Fetch q # evs) = q # requests evs"
| "requests (ev # evs) = requests evs"

fun progress_log :: "event list \<Rightarrow> rat list" where
  "progress_log [] = []"
| "progress_log (SetProgress p # evs) = p # progress_log evs"
| "progress_log (ev # evs) = progress_log evs"

fun rows_log :: "event list \<Rightarrow> row list list" where
  "rows_log [] = []"
| "rows_log (SetRows rs # evs) = rs # rows_log evs"
| "rows_log (ev # evs) = rows_log evs"

section \<open>What is drawn and exported from the rows\<close>

text \<open>
  The date library (luxon) and \<open>JSON.stringify\<close> are not part of the repository: the
  functions \<open>isoDate\<close> (for \<open>DateTime.fromSeconds(ts).toISODate()\<close>), \<open>toISO\<close> (for
  \<open>DateTime.fromSeconds(ts).toISO()\<close> and its UTC variant) and \<open>stringify\<close> are
  parameters.
\<close>





record csv_line =
  time_iso :: string
  csv_signature :: jsval
  csv_slot :: jsval
  fee_sol :: "rat option"
  csv_error :: string

definition SOL :: rat where
  "SOL = 1000000000"

text \<open>The object built for each row in \<open>exportCSV\<close> (lines 105 to 111); \<open>None\<close> is NaN.\<close>

definition csv_of_row ::
  "(jsval \<Rightarrow> string) \<Rightarrow> (jsval \<Rightarrow> string) \<Rightarrow> (jsval \<Rightarrow> rat option) \<Rightarrow> row \<Rightarrow> csv_line" where
  "csv_of_row toISO stringify cv r =
     \<lparr> time_iso = (if truthy (blockTime r) then toISO (blockTime r) else []),
       csv_signature = signature r,
       csv_slot = slot r,
       fee_sol = (if truthy (fee r) then map_option (\<lambda>q. q / SOL) (to_number cv (fee r))
                  else Some 0),
       csv_error = (if truthy (err r) then stringify (err r) else []) \<rparr>"

definition exportCSV ::
  "(jsval \<Rightarrow> string) \<Rightarrow> (jsval \<Rightarrow> string) \<Rightarrow> (jsval \<Rightarrow> rat option) \<Rightarrow> row list \<Rightarrow> csv_line list" where
  "exportCSV toISO stringify cv rs = map (csv_of_row toISO stringify cv) rs"


section \<open>The pages a run reads, as lists\<close>

text \<open>
  The items of the \<open>n\<close>-th transaction answer and of balance-change page \<open>p\<close> (empty
  when the answer is an error), and the rows of \<open>n\<close> consecutive pages, each page whole.
\<close>

definition tx_items :: "env \<Rightarrow> nat \<Rightarrow> jsval list" where
  "tx_items e n = (case read_json ''Transactions'' (txs e n) of Inl er \<Rightarrow> [] | Inr out \<Rightarrow> tx_list out)"

definition balance_items :: "env \<Rightarrow> nat \<Rightarrow> jsval list" where
  "balance_items e p =
     (case read_json ''Balance changes'' (balance e p) of
        Inl er \<Rightarrow> []
      | Inr r \<Rightarrow> (case balance_list r of Inl er \<Rightarrow> [] | Inr xs \<Rightarrow> xs))"

definition tx_rows :: "env \<Rightarrow> nat \<Rightarrow> nat \<Rightarrow> row list" where
  "tx_rows e i n = concat (map (\<lambda>j. map tx_row (tx_items e j)) [i ..< i + n])"

definition balance_rows :: "env \<Rightarrow> nat \<Rightarrow> nat \<Rightarrow> row list" where
  "balance_rows e p n = concat (map (\<lambda>j. map balance_row (balance_items e j)) [p ..< p + n])"

section \<open>The properties as the specification words them\<close>

text \<open>
  The specification's reading of the date filter: a row goes when its timestamp is
  present and strictly outside the bounds, an absent bound being no bound.
\<close>

definition spec_removed :: "rat option \<Rightarrow> rat option \<Rightarrow> row \<Rightarrow> bool" where
  "spec_removed s e r =
     (case blockTime r of
        Num t \<Rightarrow>
          (case s of None \<Rightarrow> False | Some a \<Rightarrow> t < a) \<or>
          (case e of None \<Rightarrow> False | Some b \<Rightarrow> b < t)
      | _ \<Rightarrow> False)"

text \<open>
  What the code tests instead: the value compared as a number lies outside the bounds
  that are not 0; a value that converts to NaN fails every comparison.
\<close>

definition outside ::
  "(jsval \<Rightarrow> rat option) \<Rightarrow> rat option \<Rightarrow> rat option \<Rightarrow> jsval \<Rightarrow> bool" where
  "outside cv s e v =
     (case to_number cv v of
        None \<Rightarrow> bound_set s \<or> bound_set e
      | Some t \<Rightarrow>
          (case s of None \<Rightarrow> False | Some a \<Rightarrow> a \<noteq> 0 \<and> t < a) \<or>
          (case e of None \<Rightarrow> False | Some b \<Rightarrow> b \<noteq> 0 \<and> b < t))"

text \<open>
  The first present (not undefined) value among the aliases, as the specification has
  it, and the first truthy one, as \<open>||\<close> has it; \<open>dflt\<close> when there is none.
\<close>

definition first_present :: "string list \<Rightarrow> jsval \<Rightarrow> jsval \<Rightarrow> jsval" where
  "first_present aliases dflt x =
     (case filter (\<lambda>v. v \<noteq> Undefined) (map (js_get x) aliases) of [] \<Rightarrow> dflt | v # _ \<Rightarrow> v)"

definition first_truthy :: "string list \<Rightarrow> jsval \<Rightarrow> jsval \<Rightarrow> jsval" where
  "first_truthy aliases dflt x =
     (case filter truthy (map (js_get x) aliases) of [] \<Rightarrow> dflt | v # _ \<Rightarrow> v)"


text \<open>
  A monitor over a trace: once the transaction phase (a transaction request has been
  seen) publishes a row list that reaches the cap, no request follows.
\<close>

fun quiet_after_cap :: "rat \<Rightarrow> bool \<Rightarrow> event list \<Rightarrow> bool" where
  "quiet_after_cap cap seen [] = True"
| "quiet_after_cap cap seen (SetRows rs # evs) =
     (if seen \<and> cap \<le> of_nat (length rs) then requests evs = []
      else quiet_after_cap cap seen evs)"
| "quiet_after_cap cap seen (Fetch (Transactions l b) # evs) = quiet_after_cap cap True evs"
| "quiet_after_cap cap seen (ev # evs) = quiet_after_cap cap seen evs"

section \<open>Sample servers and settings for the worked examples\<close>

definition ok :: "jsval \<Rightarrow> response" where
  "ok v = Reply 200 (Some v)"

definition balance_body :: "jsval list \<Rightarrow> jsval" where
  "balance_body xs = Obj [(''data'', Obj [(''list'', Arr xs)])]"

definition tx_body :: "jsval list \<Rightarrow> jsval" where
  "tx_body xs = Obj [(''data'', Arr xs)]"

definition server :: "(nat \<Rightarrow> response) \<Rightarrow> (nat \<Rightarrow> response) \<Rightarrow> env" where
  "server b t =
     \<lparr> detail = ok (Obj []), balance = b, txs = t, nowMs = 0, coerce = (\<lambda>v. None) \<rparr>"

definition settings :: "rat option \<Rightarrow> rat option \<Rightarrow> rat \<Rightarrow> config" where
  "settings s e cap =
     \<lparr> apiKey = ''key'', address = ''addr'', startEpoch = s, endEpoch = e, maxRows = cap \<rparr>"



section \<open>Lemmas on the filter, the generator and the two phases\<close>

lemma normalize_all_map: "normalize_all f xs = Inr rs \<Longrightarrow> rs = map f xs"
  by (induction xs arbitrary: rs) (auto simp: normalize_def split: sum.splits if_splits)

lemma tx_rows_0: "tx_rows e i 0 = []"
  by (simp add: tx_rows_def)

lemma tx_rows_Suc: "tx_rows e i (Suc n) = map tx_row (tx_items e i) @ tx_rows e (Suc i) n"
  by (simp add: tx_rows_def upt_rec [of i "Suc (i + n)"] del: upt_Suc)

lemma balance_rows_0: "balance_rows e i 0 = []"
  by (simp add: balance_rows_def)

lemma balance_rows_Suc:
  "balance_rows e i (Suc n) = map balance_row (balance_items e i) @ balance_rows e (Suc i) n"
  by (simp add: balance_rows_def upt_rec [of i "Suc (i + n)"] del: upt_Suc)

lemma gen_next_Yield:
  assumes "gen_next (txs e) limit g = (evs, Yield page g')"
  shows "page = tx_items e (issued g) \<and> page \<noteq> [] \<and> issued g' = Suc (issued g)
         \<and> pending g' = Some page \<and> (\<exists>cur. evs = [Fetch (Transactions limit cur)])"
  using assms
  by (auto simp: gen_next_def gen_request_def tx_items_def Let_def
      split: option.splits sum.splits if_splits)

lemma gen_next_quiet:
  assumes "gen_next srv limit g = (evs, st)"
  shows "rows_log evs = [] \<and> progress_log evs = [] \<and> tx_requests evs \<le> 1
         \<and> (evs = [] \<or> (\<exists>cur. evs = [Fetch (Transactions limit cur)]))"
  using assms
  by (auto simp: gen_next_def gen_request_def Let_def
      split: option.splits sum.splits if_splits)

lemma tx_loop_Suc_cases [consumes 1, case_names Throw Return BadRow Cap More]:
  assumes run: "tx_loop (Suc k) c e g out2 = Some (evs, res, out)"
    and "\<And>er. gen_next (txs e) 50 g = (evs, Throw er) \<Longrightarrow> res = Some er \<Longrightarrow> out = out2 \<Longrightarrow> P"
    and "gen_next (txs e) 50 g = (evs, Return) \<Longrightarrow> res = None \<Longrightarrow> out = out2 \<Longrightarrow> P"
    and "\<And>page g' er. gen_next (txs e) 50 g = (evs, Yield page g') \<Longrightarrow>
           normalize_all tx_row page = Inl er \<Longrightarrow> res = Some er \<Longrightarrow> out = out2 \<Longrightarrow> P"
    and "\<And>ge page g'. gen_next (txs e) 50 g = (ge, Yield page g') \<Longrightarrow>
           normalize_all tx_row page = Inr (map tx_row page) \<Longrightarrow>
           out = date_filter (coerce e) (startEpoch c) (endEpoch c) (out2 @ map tx_row page) \<Longrightarrow>
           evs = ge @ [SetRows out, SetStatus (Fetched (length out)),
                       SetProgress (tx_progress (maxRows c) (length out))] \<Longrightarrow>
           maxRows c \<le> of_nat (length out) \<Longrightarrow> res = None \<Longrightarrow> P"
    and "\<And>ge page g' out2' evs2. gen_next (txs e) 50 g = (ge, Yield page g') \<Longrightarrow>
           normalize_all tx_row page = Inr (map tx_row page) \<Longrightarrow>
           out2' = date_filter (coerce e) (startEpoch c) (endEpoch c) (out2 @ map tx_row page) \<Longrightarrow>
           \<not> maxRows c \<le> of_nat (length out2') \<Longrightarrow>
           tx_loop k c e g' out2' = Some (evs2, res, out) \<Longrightarrow>
           evs = ge @ [SetRows out2', SetStatus (Fetched (length out2')),
                       SetProgress (tx_progress (maxRows c) (length out2'))] @ Sleep 120 # evs2 \<Longrightarrow> P"
  shows P
proof (cases "gen_next (txs e) 50 g")
  case (Pair ge st)
  show ?thesis
  proof (cases st)
    case (Throw er)
    with Pair run assms(2) show ?thesis by auto
  next
    case Return
    with Pair run assms(3) show ?thesis by auto
  next
    case (Yield page g')
    show ?thesis
    proof (cases "normalize_all tx_row page")
      case (Inl er)
      with Pair Yield run assms(4) show ?thesis by auto
    next
      case (Inr new)
      then have new: "new = map tx_row page" by (rule normalize_all_map)
      let ?o = "date_filter (coerce e) (startEpoch c) (endEpoch c) (out2 @ map tx_row page)"
      show ?thesis
      proof (cases "maxRows c \<le> of_nat (length ?o)")
        case True
        with Pair Yield Inr new run assms(5) [of ge page g'] show ?thesis
          by (auto simp: Let_def)
      next
        case False
        with Pair Yield Inr new run assms(6) [of ge page g' ?o] show ?thesis
          by (auto simp: Let_def split: option.splits)
      qed
    qed
  qed
qed

lemma date_filter_as_filter:
  "date_filter cv s e rs =
     filter (\<lambda>r. (case s of None \<Rightarrow> True | Some a \<Rightarrow> a = 0 \<or> keep_start cv a r) \<and>
                 (case e of None \<Rightarrow> True | Some b \<Rightarrow> b = 0 \<or> keep_end cv b r)) rs"
  by (simp add: date_filter_def filter_start_def filter_end_def split: option.splits)

lemma date_filter_absorb:
  "date_filter cv s e (date_filter cv s e xs @ ys) = date_filter cv s e (xs @ ys)"
  by (simp add: date_filter_as_filter)


lemma tx_loop_rows:
  assumes "tx_loop k c e g out2 = Some (evs, res, out)"
    and "date_filter (coerce e) (startEpoch c) (endEpoch c) out2 = out2"
  shows "\<exists>n. out = date_filter (coerce e) (startEpoch c) (endEpoch c) (out2 @ tx_rows e (issued g) n)"
  using assms
proof (induction k arbitrary: g out2 evs)
  case 0
  then show ?case by simp
next
  case (Suc k)
  let ?df = "date_filter (coerce e) (startEpoch c) (endEpoch c)"
  from Suc.prems(1) show ?case
  proof (cases rule: tx_loop_Suc_cases)
    case (Throw er)
    with Suc.prems(2) have "out = ?df (out2 @ tx_rows e (issued g) 0)"
      by (simp add: tx_rows_0)
    then show ?thesis ..
  next
    case Return
    with Suc.prems(2) have "out = ?df (out2 @ tx_rows e (issued g) 0)"
      by (simp add: tx_rows_0)
    then show ?thesis ..
  next
    case (BadRow page g' er)
    with Suc.prems(2) have "out = ?df (out2 @ tx_rows e (issued g) 0)"
      by (simp add: tx_rows_0)
    then show ?thesis ..
  next
    case (Cap ge page g')
    from Cap(1) have "page = tx_items e (issued g)"
      using gen_next_Yield by blast
    with Cap(3) have "out = ?df (out2 @ tx_rows e (issued g) (Suc 0))"
      by (simp add: tx_rows_Suc tx_rows_0)
    then show ?thesis ..
  next
    case (More ge page g' out2' evs2)
    from More(1) have pg: "page = tx_items e (issued g)" and iss: "issued g' = Suc (issued g)"
      using gen_next_Yield by blast+
    have "?df out2' = out2'"
      unfolding More(3) by (simp add: date_filter_as_filter)
    with Suc.IH [OF More(5)] obtain n where "out = ?df (out2' @ tx_rows e (issued g') n)"
      by blast
    then have "out = ?df (out2 @ tx_rows e (issued g) (Suc n))"
      by (simp add: More(3) date_filter_absorb pg iss tx_rows_Suc)
    then show ?thesis ..
  qed
qed


lemma tx_loop_last_rows:
  "tx_loop k c e g out2 = Some (evs, res, out) \<Longrightarrow> last (out2 # rows_log evs) = out"
proof (induction k arbitrary: g out2 evs)
  case 0
  then show ?case by simp
next
  case (Suc k)
  from Suc.prems show ?case
  proof (cases rule: tx_loop_Suc_cases)
    case (Throw er)
    then show ?thesis using gen_next_quiet by fastforce
  next
    case Return
    then show ?thesis using gen_next_quiet by fastforce
  next
    case (BadRow page g' er)
    then show ?thesis using gen_next_quiet by fastforce
  next
    case (Cap ge page g')
    from Cap(1) have "\<exists>cur. ge = [Fetch (Transactions 50 cur)]"
      using gen_next_Yield by blast
    with Cap(4) show ?thesis by auto
  next
    case (More ge page g' out2' evs2)
    from More(1) have "\<exists>cur. ge = [Fetch (Transactions 50 cur)]"
      using gen_next_Yield by blast
    with More(6) Suc.IH [OF More(5)] show ?thesis by auto
  qed
qed

declare balance_loop.simps [simp del]

lemma balance_page_Inr:
  assumes "balance_page e from to page out = (pe, Inr (n, o1))"
  shows "o1 = out @ map balance_row (balance_items e page) \<and> n = length (balance_items e page)
         \<and> pe = [Fetch (BalanceChange from to page 100), SetRows o1,
                 SetProgress (balance_progress page)]"
  using assms
  by (auto simp: balance_page_def getBalanceChanges_def balance_items_def
      split: sum.splits dest: normalize_all_map)

lemma balance_page_Inl:
  assumes "balance_page e from to page out = (pe, Inl er)"
  shows "pe = [Fetch (BalanceChange from to page 100)]"
  using assms
  by (auto simp: balance_page_def getBalanceChanges_def split: sum.splits)

lemma balance_loop_induct [consumes 1, case_names Fail Stop More]:
  assumes run: "balance_loop e from to cap page out = (evs, res, out')"
    and fail: "\<And>page out evs er.
      balance_page e from to page out = (evs, Inl er) \<Longrightarrow> P page out evs (Some er) out"
    and stop: "\<And>page out evs n out'.
      balance_page e from to page out = (evs, Inr (n, out')) \<Longrightarrow>
      n = 0 \<or> cap \<le> of_nat (length out') \<Longrightarrow> P page out evs None out'"
    and more: "\<And>page out pe n o1 evs' res out'.
      balance_page e from to page out = (pe, Inr (n, o1)) \<Longrightarrow>
      0 < n \<Longrightarrow> \<not> cap \<le> of_nat (length o1) \<Longrightarrow>
      balance_loop e from to cap (Suc page) o1 = (evs', res, out') \<Longrightarrow>
      P (Suc page) o1 evs' res out' \<Longrightarrow> P page out (pe @ Sleep 120 # evs') res out'"
  shows "P page out evs res out'"
  using assms
proof (induction e "from" to cap page out arbitrary: evs res out' rule: balance_loop.induct)
  case (1 e "from" to cap page out)
  obtain pe y where bp: "balance_page e from to page out = (pe, y)"
    by (cases "balance_page e from to page out")
  show ?case
  proof (cases y)
    case (Inl er)
    with bp "1.prems" (1) have "evs = pe" "res = Some er" "out' = out"
      by (simp_all add: balance_loop.simps [of e "from" to cap page out])
    with bp Inl "1.prems" (2) show ?thesis by simp
  next
    case (Inr b)
    obtain n o1 where b: "b = (n, o1)" by (cases b)
    show ?thesis
    proof (cases "n = 0 \<or> cap \<le> of_nat (length o1)")
      case True
      with bp Inr b "1.prems" (1) have "evs = pe" "res = None" "out' = o1"
        by (simp_all add: balance_loop.simps [of e "from" to cap page out])
      with bp Inr b True "1.prems" (3) show ?thesis by simp
    next
      case False
      obtain evs' r' o' where rec: "balance_loop e from to cap (Suc page) o1 = (evs', r', o')"
        by (cases "balance_loop e from to cap (Suc page) o1")
      with bp Inr b False "1.prems" (1) have eq: "evs = pe @ Sleep 120 # evs'" "res = r'" "out' = o'"
        by (simp_all add: balance_loop.simps [of e "from" to cap page out])
      have ih: "P (Suc page) o1 evs' r' o'"
        using "1.IH" [OF bp [symmetric] Inr b [symmetric] False rec "1.prems" (2,3,4)] .
      from False have "0 < n" "\<not> cap \<le> of_nat (length o1)" by simp_all
      with bp Inr b rec ih "1.prems" (4) eq show ?thesis by simp
    qed
  qed
qed

lemma balance_loop_rows:
  "balance_loop e from to cap page out = (evs, res, out') \<Longrightarrow>
   \<exists>n. out' = out @ balance_rows e page n"
proof (induction rule: balance_loop_induct)
  case (Fail page out evs er)
  have "out = out @ balance_rows e page 0" by (simp add: balance_rows_0)
  then show ?case ..
next
  case (Stop page out evs n out')
  from balance_page_Inr [OF Stop(1)] have "out' = out @ balance_rows e page (Suc 0)"
    by (simp add: balance_rows_Suc balance_rows_0)
  then show ?case ..
next
  case (More page out pe n o1 evs' res out')
  then obtain m where "out' = o1 @ balance_rows e (Suc page) m" by blast
  with balance_page_Inr [OF More(1)] have "out' = out @ balance_rows e page (Suc m)"
    by (simp add: balance_rows_Suc)
  then show ?case ..
qed


lemma balance_loop_last_rows:
  "balance_loop e from to cap page out = (evs, res, out') \<Longrightarrow> last (out # rows_log evs) = out'"
proof (induction rule: balance_loop_induct)
  case (Fail page out evs er)
  from balance_page_Inl [OF this] show ?case by simp
next
  case (Stop page out evs n out')
  from balance_page_Inr [OF Stop(1)] show ?case by simp
next
  case (More page out pe n o1 evs' res out')
  from balance_page_Inr [OF More(1)] More(5) show ?case by simp
qed

lemma balance_loop_no_tx:
  "balance_loop e from to cap page out = (evs, res, out') \<Longrightarrow> tx_requests evs = 0"
proof (induction rule: balance_loop_induct)
  case (Fail page out evs er)
  from balance_page_Inl [OF this] show ?case by simp
next
  case (Stop page out evs n out')
  from balance_page_Inr [OF Stop(1)] show ?case by simp
next
  case (More page out pe n o1 evs' res out')
  from balance_page_Inr [OF More(1)] More(5) show ?case by simp
qed





lemma run_append: "run u (xs @ ys) = run (run u xs) ys"
  by (simp add: run_def)

lemma rows_run: "rows (run u evs) = last (rows u # rows_log evs)"
proof (induction evs arbitrary: u)
  case Nil
  then show ?case by (simp add: run_def)
next
  case (Cons ev evs)
  have "run u (ev # evs) = run (apply_event u ev) evs" by (simp add: run_def)
  with Cons [of "apply_event u ev"] show ?case by (cases ev) simp_all
qed

section \<open>More lemmas on the two phases\<close>

lemma tx_items_server: "tx_items (server b (\<lambda>n. ok (tx_body xs))) i = xs"
  by (simp add: tx_items_def server_def ok_def tx_body_def read_json_def res_ok_def tx_list_def
      js_get_opt_def nullish_def js_or_def)




section \<open>Traces: requests after the cap, and the rows left at the end\<close>

lemma requests_append: "requests (xs @ ys) = requests xs @ requests ys"
  by (induction xs rule: requests.induct) simp_all

lemma tx_requests_append: "tx_requests (xs @ ys) = tx_requests xs + tx_requests ys"
  by (induction xs rule: tx_requests.induct) simp_all

lemma rows_log_append: "rows_log (xs @ ys) = rows_log xs @ rows_log ys"
  by (induction xs rule: rows_log.induct) simp_all

lemma no_requests_no_tx: "requests evs = [] \<Longrightarrow> tx_requests evs = 0"
  by (induction evs rule: requests.induct) simp_all

lemma quiet_no_requests: "requests evs = [] \<Longrightarrow> quiet_after_cap cap seen evs"
  by (induction cap seen evs rule: quiet_after_cap.induct) simp_all

lemma quiet_skip: "tx_requests pre = 0 \<Longrightarrow>
  quiet_after_cap cap False (pre @ evs) = quiet_after_cap cap False evs"
  by (induction pre rule: tx_requests.induct) simp_all

lemma quiet_split:
  "quiet_after_cap cap seen (pre @ SetRows rs # post) \<Longrightarrow> seen \<or> 0 < tx_requests pre \<Longrightarrow>
   cap \<le> of_nat (length rs) \<Longrightarrow> requests post = []"
proof (induction cap seen pre rule: quiet_after_cap.induct)
  case (2 cap seen rs' evs)
  then show ?case by (auto simp: requests_append split: if_splits)
qed simp_all

lemma tx_loop_quiet:
  "tx_loop k c e g out2 = Some (evs, res, out) \<Longrightarrow> requests rest = [] \<Longrightarrow>
   quiet_after_cap (maxRows c) seen (evs @ rest)"
proof (induction k arbitrary: g out2 evs seen)
  case 0
  then show ?case by simp
next
  case (Suc k)
  from Suc.prems(1) show ?case
  proof (cases rule: tx_loop_Suc_cases)
    case (Throw er)
    with gen_next_quiet [of "txs e" 50 g evs] Suc.prems(2) show ?thesis
      by (auto simp: quiet_no_requests)
  next
    case Return
    with gen_next_quiet [of "txs e" 50 g evs] Suc.prems(2) show ?thesis
      by (auto simp: quiet_no_requests)
  next
    case (BadRow page g' er)
    with gen_next_quiet [of "txs e" 50 g evs] Suc.prems(2) show ?thesis
      by (auto simp: quiet_no_requests)
  next
    case (Cap ge page g')
    with gen_next_Yield [OF Cap(1)] Suc.prems(2) show ?thesis
      by auto
  next
    case (More ge page g' out2' evs2)
    from Suc.IH [OF More(5) Suc.prems(2), of True] More(4,6) gen_next_Yield [OF More(1)]
    show ?thesis by auto
  qed
qed

lemma balance_phase_no_tx:
  "balance_phase c e = (evs, res, out) \<Longrightarrow> tx_requests evs = 0"
  by (auto simp: balance_phase_def Let_def tx_requests_append
      split: prod.splits option.splits dest: balance_loop_no_tx)

lemma fetch_try_quiet:
  assumes "fetch_try fuel c e = Some (evs, res)" and "requests rest = []"
  shows "quiet_after_cap (maxRows c) False (evs @ rest)"
proof (cases "apiKey c = [] \<or> address c = []")
  case True
  with assms show ?thesis
    by (auto simp: fetch_try_def quiet_no_requests split: if_splits)
next
  case False
  let ?evs0 = "[SetLoading True, SetStatus FetchingAccount, SetProgress 5, SetRows [],
                Fetch AccountDetail]"
  show ?thesis
  proof (cases "read_json ''Account detail'' (detail e)")
    case (Inl er)
    with False assms show ?thesis
      by (auto simp: fetch_try_def getAccountDetail_def quiet_no_requests)
  next
    case (Inr d)
    obtain evs2 r2 o2 where bp:
      "(if bound_set (startEpoch c) \<or> bound_set (endEpoch c) then balance_phase c e
        else ([], None, [])) = (evs2, r2, o2)"
      by (cases "if bound_set (startEpoch c) \<or> bound_set (endEpoch c) then balance_phase c e
        else ([], None, [])") auto
    then have no2: "tx_requests evs2 = 0"
      by (auto split: if_splits dest: balance_phase_no_tx)
    let ?pre = "?evs0 @ [SetAcct (js_or (js_get_opt d ''data'') Null)] @ evs2"
    have pre: "tx_requests ?pre = 0"
      using no2 by (simp add: tx_requests_append)
    show ?thesis
    proof (cases r2)
      case (Some er)
      with False Inr bp assms(1) have "evs = ?pre"
        by (auto simp: fetch_try_def getAccountDetail_def Let_def)
      with pre assms(2) show ?thesis
        using quiet_skip [of ?pre "maxRows c" rest] by (simp add: quiet_no_requests)
    next
      case None
      with False Inr bp assms(1) obtain evs3 r3 o3 where
        tl: "tx_loop fuel c e iterTransactions [] = Some (evs3, r3, o3)"
        and ev: "evs = ?pre @ evs3 @ (case r3 of None \<Rightarrow> [SetStatus Done, SetProgress 100] | Some er \<Rightarrow> [])"
        by (auto simp: fetch_try_def getAccountDetail_def Let_def split: option.splits)
      let ?post = "(case r3 of None \<Rightarrow> [SetStatus Done, SetProgress 100] | Some er \<Rightarrow> []) @ rest"
      have "requests ?post = []"
        using assms(2) by (simp add: requests_append split: option.splits)
      from tx_loop_quiet [OF tl this] have "quiet_after_cap (maxRows c) False (evs3 @ ?post)" .
      with pre have "quiet_after_cap (maxRows c) False (?pre @ evs3 @ ?post)"
        using quiet_skip [of ?pre "maxRows c" "evs3 @ ?post"] by simp
      with ev show ?thesis by simp
    qed
  qed
qed

lemma first_next_Return:
  "gen_next (txs e) limit iterTransactions = (evs, Return) \<Longrightarrow> tx_items e 0 = []"
  by (auto simp: gen_next_def gen_request_def iterTransactions_def tx_items_def Let_def
      split: sum.splits if_splits)

lemma tx_loop_published:
  assumes "tx_loop k c e iterTransactions [] = Some (evs, None, out)"
  shows "(rows_log evs = []) = (tx_items e 0 = [])"
proof (cases k)
  case 0
  with assms show ?thesis by simp
next
  case (Suc k')
  from assms [unfolded Suc] show ?thesis
  proof (cases rule: tx_loop_Suc_cases)
    case Return
    with gen_next_quiet [of "txs e" 50 iterTransactions evs] first_next_Return [of e 50 evs]
    show ?thesis by simp
  next
    case (Cap ge page g')
    from gen_next_Yield [OF Cap(1)] Cap(4) show ?thesis
      by (auto simp: iterTransactions_def)
  next
    case (More ge page g' out2' evs2)
    from gen_next_Yield [OF More(1)] More(6) show ?thesis
      by (auto simp: iterTransactions_def)
  qed simp_all
qed

lemma balance_phase_rows:
  assumes "balance_phase c e = (evs, res, out)"
  shows "last ([] # rows_log evs) = out \<and> (\<exists>n. out = balance_rows e 1 n)"
proof -
  from assms obtain lo hi bevs where
    bl: "balance_loop e lo hi (maxRows c) 1 [] = (bevs, res, out)"
    and ev: "rows_log evs = rows_log bevs"
    by (auto simp: balance_phase_def Let_def rows_log_append split: prod.splits option.splits)
  from balance_loop_last_rows [OF bl] balance_loop_rows [OF bl] ev show ?thesis
    by simp
qed

section \<open>Fuel\<close>

lemma tx_loop_None:
  "tx_loop (Suc k) c e g out2 = None \<Longrightarrow>
   \<exists>ge page g' out2'. gen_next (txs e) 50 g = (ge, Yield page g') \<and> tx_loop k c e g' out2' = None"
  by (auto simp: Let_def split: prod.splits step.splits sum.splits option.splits if_splits)

lemma tx_loop_returns:
  "tx_items e n = [] \<Longrightarrow> issued g \<le> n \<Longrightarrow> tx_loop (Suc (n - issued g)) c e g out2 \<noteq> None"
proof (induction "n - issued g" arbitrary: g out2)
  case 0
  then have "issued g = n" by simp
  show ?case
  proof
    assume "tx_loop (Suc (n - issued g)) c e g out2 = None"
    then obtain ge page g' where "gen_next (txs e) 50 g = (ge, Yield page g')"
      using tx_loop_None by blast
    from gen_next_Yield [OF this] \<open>issued g = n\<close> "0.prems" (1) show False by auto
  qed
next
  case (Suc d)
  show ?case
  proof
    assume "tx_loop (Suc (n - issued g)) c e g out2 = None"
    with Suc.hyps(2) have "tx_loop (Suc (Suc d)) c e g out2 = None" by simp
    then obtain ge page g' out2' where y: "gen_next (txs e) 50 g = (ge, Yield page g')"
      and none: "tx_loop (Suc d) c e g' out2' = None"
      using tx_loop_None by blast
    from gen_next_Yield [OF y] have iss: "issued g' = Suc (issued g)" by simp
    with Suc.hyps(2) have d: "d = n - issued g'" and le: "issued g' \<le> n" by simp_all
    from Suc.hyps(1) [OF d Suc.prems(1) le, of out2'] none d show False by simp
  qed
qed

lemma tx_loop_more_fuel:
  "tx_loop k c e g out2 = Some r \<Longrightarrow> tx_loop (Suc k) c e g out2 = Some r"
proof (induction k arbitrary: g out2 r)
  case 0
  then show ?case by simp
next
  case (Suc k)
  obtain evs res out where r: "r = (evs, res, out)" by (cases r)
  from Suc.prems [unfolded r] show ?case
  proof (cases rule: tx_loop_Suc_cases)
    case (More ge page g' out2' evs2)
    from Suc.IH [OF More(5)] More(1,2,3,4,6) r show ?thesis
      by (simp add: Let_def)
  qed (simp_all add: r Let_def)
qed

lemma fetch_try_more_fuel:
  assumes "fetch_try k c e = Some x"
  shows "fetch_try (Suc k) c e = Some x"
proof (cases "tx_loop k c e iterTransactions []")
  case (Some r)
  have more: "tx_loop (Suc k) c e iterTransactions [] = Some r"
    using Some by (rule tx_loop_more_fuel)
  have "fetch_try (Suc k) c e = fetch_try k c e"
    unfolding fetch_try_def more Some ..
  with assms show ?thesis by simp
next
  case None
  show ?thesis
  proof (cases "apiKey c = [] \<or> address c = []")
    case True
    with assms show ?thesis
      by (auto simp: fetch_try_def)
  next
    case False
    show ?thesis
    proof (cases "read_json ''Account detail'' (detail e)")
      case (Inl er)
      with False assms show ?thesis
        by (simp add: fetch_try_def getAccountDetail_def)
    next
      case (Inr d)
      obtain evs2 r2 o2 where bp:
        "(if bound_set (startEpoch c) \<or> bound_set (endEpoch c) then balance_phase c e
          else ([], None, [])) = (evs2, r2, o2)"
        by (cases "if bound_set (startEpoch c) \<or> bound_set (endEpoch c) then balance_phase c e
          else ([], None, [])") auto
      show ?thesis
      proof (cases r2)
        case (Some er)
        with False Inr bp assms show ?thesis
          by (simp add: fetch_try_def getAccountDetail_def Let_def del: tx_loop.simps)
      next
        case r2: None
        with False Inr bp None have "fetch_try k c e = None"
          by (simp add: fetch_try_def getAccountDetail_def Let_def del: tx_loop.simps)
        with assms show ?thesis by simp
      qed
    qed
  qed
qed

lemma fetchAll_more_fuel:
  assumes "fetchAll k c e = Some tr"
  shows "fetchAll (Suc k) c e = Some tr"
proof -
  from assms obtain x where "fetch_try k c e = Some x"
    by (auto simp: fetchAll_def split: option.splits)
  from fetch_try_more_fuel [OF this] this assms show ?thesis
    by (simp add: fetchAll_def)
qed

text \<open>
  The crawl returns, and so does \<open>fetchAll\<close>, as soon as the fuel covers the first
  transaction request that the server answers with an empty page or an error.
\<close>

lemma fetchAll_returns:
  assumes "tx_items e n = []"
  shows "fetchAll (Suc n) c e \<noteq> None"
proof -
  have "tx_loop (Suc n) c e iterTransactions [] \<noteq> None"
    using tx_loop_returns [OF assms, of iterTransactions c "[]"] by (simp add: iterTransactions_def)
  then show ?thesis
    by (auto simp: fetchAll_def fetch_try_def Let_def
        split: prod.splits sum.splits option.splits if_splits)
qed

section \<open>Progress values\<close>

lemma progress_log_append: "progress_log (xs @ ys) = progress_log xs @ progress_log ys"
  by (induction xs rule: progress_log.induct) simp_all

lemma balance_loop_progress:
  "balance_loop e from to cap page out = (evs, res, out') \<Longrightarrow>
   \<forall>p \<in> set (progress_log evs). p \<le> 80"
proof (induction rule: balance_loop_induct)
  case (Fail page out evs er)
  from balance_page_Inl [OF this] show ?case by simp
next
  case (Stop page out evs n out')
  from balance_page_Inr [OF Stop(1)] show ?case by (simp add: balance_progress_def)
next
  case (More page out pe n o1 evs' res out')
  from balance_page_Inr [OF More(1)] More(5) show ?case by (simp add: balance_progress_def)
qed

lemma tx_loop_progress:
  "tx_loop k c e g out2 = Some (evs, res, out) \<Longrightarrow> \<forall>p \<in> set (progress_log evs). p \<le> 95"
proof (induction k arbitrary: g out2 evs)
  case 0
  then show ?case by simp
next
  case (Suc k)
  from Suc.prems show ?case
  proof (cases rule: tx_loop_Suc_cases)
    case (Throw er)
    with gen_next_quiet [of "txs e" 50 g evs] show ?thesis by simp
  next
    case Return
    with gen_next_quiet [of "txs e" 50 g evs] show ?thesis by simp
  next
    case (BadRow page g' er)
    with gen_next_quiet [of "txs e" 50 g evs] show ?thesis by simp
  next
    case (Cap ge page g')
    with gen_next_quiet [OF Cap(1)] show ?thesis
      by (simp add: progress_log_append tx_progress_def)
  next
    case (More ge page g' out2' evs2)
    with gen_next_quiet [OF More(1)] Suc.IH [OF More(5)] show ?thesis
      by (simp add: progress_log_append tx_progress_def)
  qed
qed

lemma balance_phase_progress:
  "balance_phase c e = (evs, res, out) \<Longrightarrow> \<forall>p \<in> set (progress_log evs). p \<le> 80"
  by (auto simp: balance_phase_def Let_def progress_log_append
      split: prod.splits option.splits dest: balance_loop_progress)

text \<open>
  The value 100 is reported exactly by the runs that end with the status Done; every
  other value reported is at most 95.
\<close>

lemma hundred_iff_done:
  assumes "fetchAll fuel c e = Some tr"
  shows "(100 \<in> set (progress_log tr)) = (status (run u tr) = Done)"
proof -
  from assms obtain evs res where ft: "fetch_try fuel c e = Some (evs, res)"
    and tr: "tr = evs @ (case res of None \<Rightarrow> [SetLoading False]
                         | Some er \<Rightarrow> [SetStatus (Failed er), SetLoading False])"
    by (auto simp: fetchAll_def split: option.splits)
  show ?thesis
  proof (cases res)
    case None
    with ft have "\<exists>evs'. evs = evs' @ [SetStatus Done, SetProgress 100]"
      by (auto simp: fetch_try_def getAccountDetail_def Let_def
          split: if_splits prod.splits sum.splits option.splits)
    with tr None show ?thesis
      by (auto simp: run_append run_def progress_log_append)
  next
    case (Some er)
    have small: "\<forall>p \<in> set (progress_log evs). p \<le> 95"
    proof (cases "apiKey c = [] \<or> address c = []")
      case True
      with ft show ?thesis by (auto simp: fetch_try_def split: if_splits)
    next
      case False
      show ?thesis
      proof (cases "read_json ''Account detail'' (detail e)")
        case (Inl er')
        with False ft show ?thesis
          by (auto simp: fetch_try_def getAccountDetail_def)
      next
        case (Inr d)
        obtain evs2 r2 o2 where bp:
          "(if bound_set (startEpoch c) \<or> bound_set (endEpoch c) then balance_phase c e
            else ([], None, [])) = (evs2, r2, o2)"
          by (cases "if bound_set (startEpoch c) \<or> bound_set (endEpoch c) then balance_phase c e
            else ([], None, [])") auto
        then have p2: "\<forall>p \<in> set (progress_log evs2). p \<le> 95"
          by (fastforce split: if_splits dest: balance_phase_progress)
        show ?thesis
        proof (cases r2)
          case (Some er2)
          with False Inr bp ft p2 show ?thesis
            by (auto simp: fetch_try_def getAccountDetail_def Let_def progress_log_append)
        next
          case None
          with False Inr bp ft \<open>res = Some er\<close> obtain evs3 o3 where
            tl: "tx_loop fuel c e iterTransactions [] = Some (evs3, Some er, o3)"
            and ev: "evs = [SetLoading True, SetStatus FetchingAccount, SetProgress 5, SetRows [],
                            Fetch AccountDetail, SetAcct (js_or (js_get_opt d ''data'') Null)]
                           @ evs2 @ evs3"
            by (auto simp: fetch_try_def getAccountDetail_def Let_def split: option.splits)
          from tx_loop_progress [OF tl] p2 ev show ?thesis
            by (auto simp: progress_log_append)
        qed
      qed
    qed
    then have "100 \<notin> set (progress_log evs)" by fastforce
    with tr Some show ?thesis
      by (auto simp: run_append run_def progress_log_append)
  qed
qed

section \<open>The claims\<close>

subsection \<open>The date filter\<close>

text \<open>
  C9. Applying the client-side date filter to an already filtered list of rows gives
  the same list, for every list of rows and every pair of optional bounds.
\<close>

theorem date_filter_idempotent:
  "date_filter cv s e (date_filter cv s e rs) = date_filter cv s e rs"
  by (simp add: date_filter_as_filter)

theorem date_filter_idempotent_witness:
  "date_filter (\<lambda>v. None) (Some 10) (Some 20)
     (date_filter (\<lambda>v. None) (Some 10) (Some 20)
        [tx_row (Obj [(''blockTime'', Num 5)]), tx_row (Obj [(''blockTime'', Num 15)]),
         tx_row (Obj [(''txHash'', Str ''a'')])])
   = [tx_row (Obj [(''blockTime'', Num 15)]), tx_row (Obj [(''txHash'', Str ''a'')])]"
  using date_filter_idempotent [of "\<lambda>v. None" "Some 10" "Some 20"
      "[tx_row (Obj [(''blockTime'', Num 5)]), tx_row (Obj [(''blockTime'', Num 15)]),
        tx_row (Obj [(''txHash'', Str ''a'')])]"]
  by (simp add: date_filter_def filter_start_def filter_end_def keep_start_def keep_end_def
      js_ge_def js_le_def tx_row_def js_or_def js_coalesce_def nullish_def)

text \<open>
  C5, as stated, fails: a row whose timestamp is present and equal to 0 lies strictly
  below a start bound of 100, and the filter keeps it.
\<close>

theorem date_filter_keeps_zero_counterexample:
  "spec_removed (Some 100) None (tx_row (Obj [(''block_time'', Num 0)]))
   \<and> date_filter (\<lambda>v. None) (Some 100) None [tx_row (Obj [(''block_time'', Num 0)])]
       = [tx_row (Obj [(''block_time'', Num 0)])]"
  by (simp add: spec_removed_def date_filter_def filter_start_def filter_end_def keep_start_def
      tx_row_def js_or_def js_coalesce_def nullish_def)

text \<open>
  C5, amended. The filter removes a row if and only if its timestamp is truthy (present
  and not 0) and, compared as a number, lies strictly outside the bounds that are set
  and not 0; a bound that is absent or 0 is no bound. A row whose timestamp is absent
  or 0 is never removed.
\<close>

theorem date_filter_exclusion:
  "date_filter cv s e rs =
     filter (\<lambda>r. \<not> (truthy (blockTime r) \<and> outside cv s e (blockTime r))) rs"
  unfolding date_filter_as_filter
  by (rule filter_cong)
     (auto simp: outside_def keep_start_def keep_end_def js_ge_def js_le_def bound_set_def
       split: option.splits)

theorem date_filter_exclusion_witness:
  "date_filter (\<lambda>v. None) (Some 10) (Some 20)
     [tx_row (Obj [(''blockTime'', Num 5)]), tx_row (Obj [(''blockTime'', Num 15)]),
      tx_row (Obj [(''blockTime'', Num 25)]), tx_row (Obj [(''block_time'', Num 0)])]
   = [tx_row (Obj [(''blockTime'', Num 15)]), tx_row (Obj [(''block_time'', Num 0)])]"
  using date_filter_exclusion [of "\<lambda>v. None" "Some 10" "Some 20"
     "[tx_row (Obj [(''blockTime'', Num 5)]), tx_row (Obj [(''blockTime'', Num 15)]),
      tx_row (Obj [(''blockTime'', Num 25)]), tx_row (Obj [(''block_time'', Num 0)])]"]
  by (simp add: outside_def tx_row_def js_or_def js_coalesce_def nullish_def bound_set_def)

subsection \<open>The row normalisers\<close>

text \<open>
  C4, as stated, fails: the normaliser does not take the first present alias. With
  \<open>blockTime\<close> present and 0 and \<open>blockTimeUnix\<close> 5, the first present value is 0 and the
  row's timestamp is 5.
\<close>

theorem normalizer_first_present_counterexample:
  "first_present [''blockTime'', ''blockTimeUnix'', ''block_time''] Undefined
     (Obj [(''blockTime'', Num 0), (''blockTimeUnix'', Num 5)]) = Num 0
   \<and> blockTime (tx_row (Obj [(''blockTime'', Num 0), (''blockTimeUnix'', Num 5)])) = Num 5"
  by (simp add: first_present_def tx_row_def js_or_def)

text \<open>
  C4, amended. For every source object each normaliser gives a row with the five
  fields, each the first truthy value among that normaliser's ordered aliases. For a
  transaction: \<open>blockTime\<close>, \<open>blockTimeUnix\<close>, \<open>block_time\<close>; \<open>txHash\<close>, \<open>txhash\<close>; \<open>fee\<close>,
  \<open>feeLamports\<close>; \<open>err\<close>, \<open>error\<close>; the slot is kept unless it is null or undefined. For a
  balance change: \<open>block_time\<close>, \<open>blockTime\<close>, \<open>ts\<close>; \<open>tx_hash\<close>, \<open>txHash\<close>; \<open>slot\<close>; \<open>fee\<close>;
  \<open>err\<close>. When no alias is truthy the fee is 0, the error and the slot are null, and the
  timestamp and the signature are what the last alias holds (undefined when absent).
\<close>

theorem normalizers_first_truthy:
  "normalize tx_row (Obj kvs) = Inr
     \<lparr> blockTime = first_truthy [''blockTime'', ''blockTimeUnix'', ''block_time'']
                     (js_get (Obj kvs) ''block_time'') (Obj kvs),
       signature = first_truthy [''txHash'', ''txhash''] (js_get (Obj kvs) ''txhash'') (Obj kvs),
       slot = (if nullish (js_get (Obj kvs) ''slot'') then Null else js_get (Obj kvs) ''slot''),
       fee = first_truthy [''fee'', ''feeLamports''] (Num 0) (Obj kvs),
       err = first_truthy [''err'', ''error''] Null (Obj kvs) \<rparr>
   \<and> normalize balance_row (Obj kvs) = Inr
     \<lparr> blockTime = first_truthy [''block_time'', ''blockTime'', ''ts'']
                     (js_get (Obj kvs) ''ts'') (Obj kvs),
       signature = first_truthy [''tx_hash'', ''txHash''] (js_get (Obj kvs) ''txHash'') (Obj kvs),
       slot = first_truthy [''slot''] Null (Obj kvs),
       fee = first_truthy [''fee''] (Num 0) (Obj kvs),
       err = first_truthy [''err''] Null (Obj kvs) \<rparr>"
  by (simp add: normalize_def nullish_def tx_row_def balance_row_def first_truthy_def js_or_def
      js_coalesce_def)

theorem normalizers_first_truthy_witness:
  "normalize tx_row (Obj [(''blockTimeUnix'', Num 7), (''txhash'', Str ''s''), (''slot'', Num 0),
                          (''feeLamports'', Num 5000)])
     = Inr \<lparr> blockTime = Num 7, signature = Str ''s'', slot = Num 0, fee = Num 5000, err = Null \<rparr>
   \<and> normalize balance_row (Obj [(''ts'', Num 7), (''txHash'', Str ''s''), (''slot'', Num 0),
                          (''feeLamports'', Num 5000)])
     = Inr \<lparr> blockTime = Num 7, signature = Str ''s'', slot = Null, fee = Num 0, err = Null \<rparr>"
  using normalizers_first_truthy [of "[(''blockTimeUnix'', Num 7), (''txhash'', Str ''s''),
      (''slot'', Num 0), (''feeLamports'', Num 5000)]"]
    normalizers_first_truthy [of "[(''ts'', Num 7), (''txHash'', Str ''s''),
      (''slot'', Num 0), (''feeLamports'', Num 5000)]"]
  by (simp add: first_truthy_def nullish_def)

subsection \<open>The transaction paginator\<close>

text \<open>
  C6. When the page the paginator requests comes back empty, the call of \<open>next()\<close>
  ends the sequence and yields nothing. After a yielded batch whose last element has no
  truthy \<open>txHash\<close> (the field is absent), the very next call ends the sequence without
  sending a request, whatever the server would answer; the batch itself was not empty.
\<close>

theorem paginator_stops:
  "(read_json ''Transactions'' (srv (issued g)) = Inr body \<and> tx_list body = []
      \<longrightarrow> snd (gen_next srv limit g) = Return)
   \<and> (gen_next srv limit g = (evs, Yield page g') \<and> \<not> truthy (js_get_opt (last page) ''txHash'')
      \<longrightarrow> page \<noteq> [] \<and> gen_next srv' limit g' = ([], Return))"
  by (auto simp: gen_next_def gen_request_def last_item_def Let_def
      split: option.splits sum.splits if_splits)

theorem paginator_stops_witness:
  "snd (gen_next (\<lambda>n. Reply 200 (Some (Obj [(''data'', Arr [])]))) 50 iterTransactions) = Return
   \<and> gen_next (\<lambda>n. Reply 200 (Some (Obj [(''data'', Arr [Obj [(''slot'', Num 1)]])]))) 50
        \<lparr> beforeHash = Undefined, loaded = 0, issued = 1,
          pending = Some [Obj [(''slot'', Num 1)]] \<rparr>
       = ([], Return)"
proof -
  let ?empty = "\<lambda>n::nat. Reply 200 (Some (Obj [(''data'', Arr [])]))"
  let ?full = "\<lambda>n::nat. Reply 200 (Some (Obj [(''data'', Arr [Obj [(''slot'', Num 1)]])]))"
  let ?g' = "\<lparr> beforeHash = Undefined, loaded = 0, issued = 1,
               pending = Some [Obj [(''slot'', Num 1)]] \<rparr>"
  have a: "read_json ''Transactions'' (?empty (issued iterTransactions)) = Inr (Obj [(''data'', Arr [])])
           \<and> tx_list (Obj [(''data'', Arr [])]) = []"
    by (simp add: read_json_def res_ok_def tx_list_def js_get_opt_def nullish_def js_or_def)
  have b: "gen_next ?full 50 iterTransactions
             = ([Fetch (Transactions 50 None)], Yield [Obj [(''slot'', Num 1)]] ?g')
           \<and> \<not> truthy (js_get_opt (last [Obj [(''slot'', Num 1)]]) ''txHash'')"
    by (simp add: gen_next_def gen_request_def iterTransactions_def read_json_def res_ok_def
        tx_list_def js_get_opt_def nullish_def js_or_def Let_def)
  from a b paginator_stops [of "?empty" iterTransactions "Obj [(''data'', Arr [])]" 50]
    paginator_stops [of "?full" iterTransactions _ 50 "[Fetch (Transactions 50 None)]"
      "[Obj [(''slot'', Num 1)]]" ?g' "?full"]
  show ?thesis by blast
qed

subsection \<open>A timestamp of 0\<close>



subsection \<open>Validation and failure\<close>



subsection \<open>The row cap\<close>



subsection \<open>Requests after the cap\<close>

text \<open>
  C2, as stated, fails: with a cap of 1 the balance-change phase publishes one row, which
  reaches the cap, and the first transaction page is requested all the same.
\<close>

theorem request_after_balance_cap_counterexample:
  "maxRows (settings (Some 1) None 1) \<le> of_nat (length [balance_row (Obj [(''tx_hash'', Str ''a'')])])
   \<and> fetchAll 1 (settings (Some 1) None 1)
       (server (\<lambda>p. ok (balance_body [Obj [(''tx_hash'', Str ''a'')]])) (\<lambda>n. ok (tx_body [])))
     = Some [SetLoading True, SetStatus FetchingAccount, SetProgress 5, SetRows [],
             Fetch AccountDetail, SetAcct Null, SetStatus FetchingBalanceChanges,
             Fetch (BalanceChange 1 0 1 100),
             SetRows [balance_row (Obj [(''tx_hash'', Str ''a'')])],
             SetProgress 24, SetStatus FetchingTransactions,
             Fetch (Transactions 50 None), SetStatus Done, SetProgress 100,
             SetLoading False]"
  by code_simp

text \<open>
  C2, amended. Once the transaction phase has published a row list whose length
  reaches the cap, no request of any kind follows in the run. (A published list belongs
  to the transaction phase when a transaction request precedes it; the rows of the
  balance-change phase do not count towards the crawl's cap.)
\<close>

theorem no_request_after_cap:
  assumes "fetchAll fuel c e = Some tr"
    and "tr = pre @ SetRows rs # post"
    and "0 < tx_requests pre"
    and "maxRows c \<le> of_nat (length rs)"
  shows "requests post = []"
proof -
  from assms(1) obtain evs res where ft: "fetch_try fuel c e = Some (evs, res)"
    and tr: "tr = evs @ (case res of None \<Rightarrow> [SetLoading False]
                         | Some er \<Rightarrow> [SetStatus (Failed er), SetLoading False])"
    by (auto simp: fetchAll_def split: option.splits)
  have "requests (case res of None \<Rightarrow> [SetLoading False]
                         | Some er \<Rightarrow> [SetStatus (Failed er), SetLoading False]) = []"
    by (simp split: option.splits)
  from fetch_try_quiet [OF ft this] tr have "quiet_after_cap (maxRows c) False tr"
    by simp
  with assms(2,3,4) show ?thesis
    using quiet_split [of "maxRows c" False pre rs post] by simp
qed

theorem no_request_after_cap_witness:
  "\<exists>pre rs post.
     fetchAll 1 (settings None None 1)
       (server (\<lambda>p. NetworkFailure) (\<lambda>n. ok (tx_body [Obj [(''txHash'', Str ''a'')]])))
       = Some (pre @ SetRows rs # post)
     \<and> 0 < tx_requests pre \<and> maxRows (settings None None 1) \<le> of_nat (length rs)
     \<and> requests post = []"
proof -
  let ?c = "settings None None 1"
  let ?e = "server (\<lambda>p. NetworkFailure) (\<lambda>n. ok (tx_body [Obj [(''txHash'', Str ''a'')]]))"
  let ?pre = "[SetLoading True, SetStatus FetchingAccount, SetProgress 5, SetRows [],
               Fetch AccountDetail, SetAcct Null, Fetch (Transactions 50 None)]"
  let ?rs = "[tx_row (Obj [(''txHash'', Str ''a'')])]"
  let ?post = "[SetStatus (Fetched 1), SetProgress 60, SetStatus Done, SetProgress 100,
                SetLoading False]"
  have f: "fetchAll 1 ?c ?e = Some (?pre @ SetRows ?rs # ?post)"
    by code_simp
  have p: "0 < tx_requests ?pre" by simp
  have m: "maxRows ?c \<le> of_nat (length ?rs)" by (simp add: settings_def)
  from no_request_after_cap [OF f refl p m] have "requests ?post = []" .
  with f p m show ?thesis by blast
qed

subsection \<open>The final result set\<close>

text \<open>
  C1, as stated, fails: the balance-change phase publishes the rows of the
  transactions \<open>a\<close> and \<open>b\<close>, the crawl then finds \<open>a\<close>, and the final rows are the
  crawl's one row: the balance-change rows are gone and \<open>a\<close> is there once.
\<close>

theorem crawl_replaces_balance_rows_counterexample:
  "map_option (\<lambda>tr. (rows_log tr, rows (run ui_init tr)))
     (fetchAll 2 (settings (Some 1) None 20000)
        (server (\<lambda>p. if p = 1 then ok (balance_body [Obj [(''tx_hash'', Str ''a'')],
                                                      Obj [(''tx_hash'', Str ''b'')]])
                     else ok (balance_body []))
                (\<lambda>n. if n = 0 then ok (tx_body [Obj [(''txHash'', Str ''a'')]])
                     else ok (tx_body []))))
   = Some ([[],
            [balance_row (Obj [(''tx_hash'', Str ''a'')]), balance_row (Obj [(''tx_hash'', Str ''b'')])],
            [balance_row (Obj [(''tx_hash'', Str ''a'')]), balance_row (Obj [(''tx_hash'', Str ''b'')])],
            [tx_row (Obj [(''txHash'', Str ''a'')])]],
           [tx_row (Obj [(''txHash'', Str ''a'')])])"
  by code_simp

text \<open>
  C1, amended. After a successful fetch whose transaction crawl yields at least one
  batch, the result set is made of the crawl's rows only, in fetch order: the date
  filter applied to the rows of the first \<open>n\<close> transaction pages. The balance-change
  rows were shown while the first phase ran and are replaced by the first batch of the
  crawl, so nothing is doubled across the phases. When the crawl yields no batch the
  result set is the rows of the balance-change pages (none when that phase did not
  run).
\<close>

theorem final_rows:
  assumes "fetchAll fuel c e = Some tr" and "status (run u tr) = Done"
  shows "(tx_items e 0 \<noteq> [] \<longrightarrow>
            (\<exists>n. rows (run u tr)
                 = date_filter (coerce e) (startEpoch c) (endEpoch c) (tx_rows e 0 n)))
       \<and> (tx_items e 0 = [] \<longrightarrow> (\<exists>n. rows (run u tr) = balance_rows e 1 n))"
proof -
  let ?df = "date_filter (coerce e) (startEpoch c) (endEpoch c)"
  from assms obtain evs where ft: "fetch_try fuel c e = Some (evs, None)"
    and tr: "tr = evs @ [SetLoading False]"
    by (auto simp: fetchAll_def run_append run_def split: option.splits)
  from ft have ok: "apiKey c \<noteq> []" "address c \<noteq> []"
    by (auto simp: fetch_try_def split: if_splits)
  from ft ok obtain d where d: "read_json ''Account detail'' (detail e) = Inr d"
    by (cases "read_json ''Account detail'' (detail e)")
       (auto simp: fetch_try_def getAccountDetail_def)
  obtain evs2 r2 o2 where bp:
    "(if bound_set (startEpoch c) \<or> bound_set (endEpoch c) then balance_phase c e
      else ([], None, [])) = (evs2, r2, o2)"
    by (cases "if bound_set (startEpoch c) \<or> bound_set (endEpoch c) then balance_phase c e
      else ([], None, [])") auto
  from ft ok d bp have r2: "r2 = None"
    by (cases r2) (auto simp: fetch_try_def getAccountDetail_def Let_def)
  from ft ok d bp r2 obtain evs3 o3 where
    tl: "tx_loop fuel c e iterTransactions [] = Some (evs3, None, o3)"
    and ev: "evs = [SetLoading True, SetStatus FetchingAccount, SetProgress 5, SetRows [],
                    Fetch AccountDetail, SetAcct (js_or (js_get_opt d ''data'') Null)]
                   @ evs2 @ evs3 @ [SetStatus Done, SetProgress 100]"
    by (auto simp: fetch_try_def getAccountDetail_def Let_def split: option.splits)
  have log: "rows_log tr = [] # rows_log evs2 @ rows_log evs3"
    unfolding tr ev by (simp add: rows_log_append)
  have b: "last ([] # rows_log evs2) = o2 \<and> (\<exists>n. o2 = balance_rows e 1 n)"
  proof (cases "bound_set (startEpoch c) \<or> bound_set (endEpoch c)")
    case True
    with bp show ?thesis using balance_phase_rows [of c e evs2 r2 o2] by simp
  next
    case False
    with bp have e2: "evs2 = []" "o2 = []" by simp_all
    have "o2 = balance_rows e 1 0" by (simp add: e2 balance_rows_0)
    then have "\<exists>n. o2 = balance_rows e 1 n" ..
    with e2 show ?thesis by simp
  qed
  have t: "last ([] # rows_log evs3) = o3"
    using tx_loop_last_rows [OF tl] .
  have "?df [] = []" by (simp add: date_filter_as_filter)
  with tx_loop_rows [OF tl] obtain n where n: "o3 = ?df (tx_rows e 0 n)"
    by (auto simp: iterTransactions_def)
  have pub: "(rows_log evs3 = []) = (tx_items e 0 = [])"
    using tx_loop_published [OF tl] .
  have rr: "rows (run u tr) = last (rows u # rows_log tr)"
    by (rule rows_run)
  show ?thesis
  proof (intro conjI impI)
    assume "tx_items e 0 \<noteq> []"
    with pub have "rows_log evs3 \<noteq> []" by simp
    with rr log t have "rows (run u tr) = o3" by simp
    with n show "\<exists>n. rows (run u tr) = ?df (tx_rows e 0 n)" by blast
  next
    assume "tx_items e 0 = []"
    with pub have "rows_log evs3 = []" by simp
    with rr log b have "rows (run u tr) = o2" by simp
    with b show "\<exists>n. rows (run u tr) = balance_rows e 1 n" by simp
  qed
qed

theorem final_rows_witness:
  "(\<exists>tr n. fetchAll 2 (settings (Some 1) None 20000)
        (server (\<lambda>p. if p = 1 then ok (balance_body [Obj [(''tx_hash'', Str ''a'')],
                                                      Obj [(''tx_hash'', Str ''b'')]])
                     else ok (balance_body []))
                (\<lambda>n. if n = 0 then ok (tx_body [Obj [(''txHash'', Str ''a'')]])
                     else ok (tx_body []))) = Some tr
      \<and> rows (run ui_init tr) = [tx_row (Obj [(''txHash'', Str ''a'')])]
      \<and> rows (run ui_init tr)
          = date_filter (\<lambda>v. None) (Some 1) None
              (tx_rows (server (\<lambda>p. if p = 1 then ok (balance_body [Obj [(''tx_hash'', Str ''a'')],
                                                      Obj [(''tx_hash'', Str ''b'')]])
                     else ok (balance_body []))
                (\<lambda>n. if n = 0 then ok (tx_body [Obj [(''txHash'', Str ''a'')]])
                     else ok (tx_body []))) 0 n))
   \<and> (\<exists>tr n. fetchAll 1 (settings (Some 1) None 1)
        (server (\<lambda>p. ok (balance_body [Obj [(''tx_hash'', Str ''a'')]])) (\<lambda>n. ok (tx_body [])))
        = Some tr
      \<and> rows (run ui_init tr) = [balance_row (Obj [(''tx_hash'', Str ''a'')])]
      \<and> rows (run ui_init tr)
          = balance_rows (server (\<lambda>p. ok (balance_body [Obj [(''tx_hash'', Str ''a'')]]))
                            (\<lambda>n. ok (tx_body []))) 1 n)"
proof -
  let ?c = "settings (Some 1) None 20000"
  let ?e = "server (\<lambda>p. if p = 1 then ok (balance_body [Obj [(''tx_hash'', Str ''a'')],
                                                      Obj [(''tx_hash'', Str ''b'')]])
                     else ok (balance_body []))
                (\<lambda>n. if n = 0 then ok (tx_body [Obj [(''txHash'', Str ''a'')]])
                     else ok (tx_body []))"
  let ?d = "settings (Some 1) None 1"
  let ?f = "server (\<lambda>p. ok (balance_body [Obj [(''tx_hash'', Str ''a'')]])) (\<lambda>n. ok (tx_body []))"
  have "map_option (\<lambda>tr. (status (run ui_init tr), rows (run ui_init tr))) (fetchAll 2 ?c ?e)
        = Some (Done, [tx_row (Obj [(''txHash'', Str ''a'')])])"
    by code_simp
  then obtain tr where tr: "fetchAll 2 ?c ?e = Some tr" "status (run ui_init tr) = Done"
      "rows (run ui_init tr) = [tx_row (Obj [(''txHash'', Str ''a'')])]"
    by (cases "fetchAll 2 ?c ?e") auto
  have i: "tx_items ?e 0 \<noteq> []"
    by (simp add: tx_items_def server_def ok_def tx_body_def read_json_def res_ok_def tx_list_def
        js_get_opt_def nullish_def js_or_def)
  have ce: "coerce ?e = (\<lambda>v. None)" "startEpoch ?c = Some 1" "endEpoch ?c = None"
    by (simp_all add: server_def settings_def)
  from final_rows [OF tr(1,2)] i ce obtain n where
    "rows (run ui_init tr) = date_filter (\<lambda>v. None) (Some 1) None (tx_rows ?e 0 n)"
    by auto
  with tr have first: "\<exists>tr n. fetchAll 2 ?c ?e = Some tr
      \<and> rows (run ui_init tr) = [tx_row (Obj [(''txHash'', Str ''a'')])]
      \<and> rows (run ui_init tr) = date_filter (\<lambda>v. None) (Some 1) None (tx_rows ?e 0 n)"
    by blast
  have "map_option (\<lambda>tr. (status (run ui_init tr), rows (run ui_init tr))) (fetchAll 1 ?d ?f)
        = Some (Done, [balance_row (Obj [(''tx_hash'', Str ''a'')])])"
    by code_simp
  then obtain tr' where tr': "fetchAll 1 ?d ?f = Some tr'" "status (run ui_init tr') = Done"
      "rows (run ui_init tr') = [balance_row (Obj [(''tx_hash'', Str ''a'')])]"
    by (cases "fetchAll 1 ?d ?f") auto
  have j: "tx_items ?f 0 = []"
    by (simp add: tx_items_server)
  from final_rows [OF tr'(1,2)] j obtain m where
    "rows (run ui_init tr') = balance_rows ?f 1 m"
    by auto
  with tr' have second: "\<exists>tr n. fetchAll 1 ?d ?f = Some tr
      \<and> rows (run ui_init tr) = [balance_row (Obj [(''tx_hash'', Str ''a'')])]
      \<and> rows (run ui_init tr) = balance_rows ?f 1 n"
    by blast
  from first second show ?thesis by blast
qed

subsection \<open>Progress\<close>

text \<open>
  C3. The progress values reported by a fetch do not always rise. With a start date
  set, eleven balance-change pages of one row each and an empty twelfth, then one
  transaction page, the values are 5, then 24 to 68 in steps of 4 during the
  balance-change phase, then 60 for the first batch of the crawl, then 100.
\<close>

theorem progress_falls_back:
  "map_option progress_log
     (fetchAll 2 (settings (Some 1) None 20000)
        (server (\<lambda>p. if p \<le> 11 then ok (balance_body [Obj [(''tx_hash'', Str ''a'')]])
                     else ok (balance_body []))
                (\<lambda>n. if n = 0 then ok (tx_body [Obj [(''txHash'', Str ''a'')]])
                     else ok (tx_body []))))
   = Some [5, 24, 28, 32, 36, 40, 44, 48, 52, 56, 60, 64, 68, 60, 100]"
  by code_simp

end
